theory Spec2Isabelle
  imports Main "HOL-Library.AList" "HOL-Library.Multiset" "HOL-Library.Sublist"
begin

section \<open>Data model of package mapper\<close>

text \<open>
  A \<open>Type\<close> is the interface with the methods \<open>Key()\<close> and \<open>String()\<close>: a comparable
  identity and a display name. A \<open>Value\<close> is a Go \<open>interface{}\<close> value; the key of its
  dynamic type is what a \<open>Type\<close> is matched against, the payload is opaque.
\<close>

type_synonym tkey = nat

record Type =
  Key :: tkey
  Name :: string

record Value =
  vtype :: tkey
  vdata :: nat

text \<open>
  \<open>Func\<close> is the struct behind \<open>*Func\<close>: the ordered argument types, the output type, the
  extra values bound to the function and its label. The logger is left out: it only
  traces. A \<open>*Func\<close> is an address; the heap maps every address to its struct, so two
  pointers to structs of equal content stay two invocables.
\<close>

record Func =
  Args :: "Type list"
  Out :: Type
  Values :: "Value list"
  Label :: string

type_synonym fptr = nat
type_synonym heap = "fptr \<Rightarrow> Func"

text \<open>The struct \<open>Chain\<close>: the ordered functions to call and the values at hand.\<close>

record Chain =
  funcs :: "fptr list"
  "values" :: "Value list"

text \<open>
  Go maps are association lists with at most one entry per key. The order in which
  \<open>range\<close> walks a Go map is not fixed by the language: every walk over the map of missing
  types takes its order from an \<open>order\<close>, a function of the call path of the walk (the
  missing type and the position in the candidate list of each enclosing recursive call)
  and of the entries. Each walk of one run has its own path, so any run of the Go code is
  the model under some order; \<open>valid_order\<close> says that a walk visits every entry once.
\<close>

type_synonym path = "(Type \<times> nat) list"
type_synonym order = "path \<Rightarrow> Type list \<Rightarrow> Type list"
type_synonym index = "(tkey \<times> fptr list) list"

definition valid_order :: "order \<Rightarrow> bool" where
  "valid_order ord \<longleftrightarrow> (\<forall>p xs. mset (ord p xs) = mset xs)"

definition lookup :: "('k \<times> 'v list) list \<Rightarrow> 'k \<Rightarrow> 'v list" where
  "lookup m k = (case map_of m k of None \<Rightarrow> [] | Some vs \<Rightarrow> vs)"

section \<open>Missing arguments\<close>

text \<open>
  Modelled from the spec: \<open>Type.Match\<close> is not part of the sources at hand. A value
  matches an argument type when the key of the value's type is the key of the argument.
\<close>

definition matches :: "Value list \<Rightarrow> Type \<Rightarrow> bool" where
  "matches vals arg \<longleftrightarrow> Key arg \<in> vtype ` set vals"

text \<open>
  Modelled from the spec: one step of \<open>Func.args\<close>, which is not part of the sources at
  hand. A positional argument that no value matches gets an entry in \<open>missing\<close> under the
  key of its type; arguments sharing a key collapse into one entry (a later argument
  overwrites the entry of an earlier one, as a Go map assignment does).
\<close>

definition missing_step :: "Value list \<Rightarrow> (tkey \<times> Type) list \<Rightarrow> Type \<Rightarrow> (tkey \<times> Type) list" where
  "missing_step vals missing arg =
     (if matches vals arg then missing else AList.update (Key arg) arg missing)"

text \<open>
  Modelled from the spec: \<open>Func.args(values, missing)\<close> is not part of the sources at hand.
  It walks the arguments in their order and fills \<open>missing\<close>, which is empty before, with
  the arguments that no value matches. The callers in \<open>chain.go\<close> read the types of
  \<open>missing\<close> only.
\<close>

definition args :: "Func \<Rightarrow> Value list \<Rightarrow> (tkey \<times> Type) list" where
  "args f vals = foldl (missing_step vals) [] (Args f)"

section \<open>Func.Chain and the recursive search\<close>

definition unable_to_map :: "Type \<Rightarrow> string" where
  "unable_to_map t = ''unable to map to '' @ Name t"

text \<open>Lines 72 to 76: the mappers grouped by the key of their output, in library order.\<close>

definition mapperByOut :: "heap \<Rightarrow> fptr list \<Rightarrow> index" where
  "mapperByOut H mappers =
     foldl (\<lambda>idx m. AList.update (Key (Out (H m))) (lookup idx (Key (Out (H m))) @ [m]) idx)
       [] mappers"

definition index_funcs :: "index \<Rightarrow> fptr set" where
  "index_funcs idx = set (concat (map snd idx))"

lemma lookup_index_funcs: "set (lookup idx k) \<subseteq> index_funcs idx"
proof (cases "map_of idx k")
  case None
  then show ?thesis by (simp add: lookup_def)
next
  case (Some ms)
  then have "(k, ms) \<in> set idx" by (rule map_of_SomeD)
  then have "set ms \<subseteq> index_funcs idx" by (force simp: index_funcs_def)
  with Some show ?thesis by (simp add: lookup_def)
qed

lemma finite_index_funcs: "finite (index_funcs idx)"
  by (simp add: index_funcs_def)

text \<open>
  \<open>func_chain\<close> is \<open>Func.chain\<close> (lines 229 to 290). The slice \<open>chain\<close> is a list: a caller
  keeps its own length, so what a failed recursive call appended is not seen again. The
  map \<open>chainSet\<close> is shared by all calls, so it is passed in and returned, also on failure.
  The map \<open>pendingSet\<close> is passed down only: a function is called only when it is not in
  the set, so the deferred delete gives the caller back the set it passed.
  \<open>missing_loop\<close> is the loop labelled \<open>MISSING_LOOP\<close> over the missing types that are left,
  \<open>mappers_loop\<close> the loop of lines 265 to 283 over the candidates that are left.
\<close>

function func_chain ::
    "order \<Rightarrow> heap \<Rightarrow> Value list \<Rightarrow> index \<Rightarrow> path \<Rightarrow> fptr \<Rightarrow> fptr list \<Rightarrow> fptr set \<Rightarrow> fptr set
      \<Rightarrow> (string + fptr list) \<times> fptr set"
  and missing_loop ::
    "order \<Rightarrow> heap \<Rightarrow> Value list \<Rightarrow> index \<Rightarrow> path \<Rightarrow> fptr \<Rightarrow> Type list \<Rightarrow> fptr list \<Rightarrow> fptr set
      \<Rightarrow> fptr set \<Rightarrow> (string + fptr list) \<times> fptr set"
  and mappers_loop ::
    "order \<Rightarrow> heap \<Rightarrow> Value list \<Rightarrow> index \<Rightarrow> path \<Rightarrow> Type \<Rightarrow> fptr list \<Rightarrow> fptr list \<Rightarrow> fptr set
      \<Rightarrow> fptr set \<Rightarrow> fptr list option \<times> fptr set"
where
  "func_chain ord H vals idx p f chain chainSet pendingSet =
     (let missing = args (H f) vals in
      if missing = [] then (Inr (chain @ [f]), insert f chainSet)
      else missing_loop ord H vals idx p f (ord p (map snd missing)) chain chainSet
             (insert f pendingSet))"
| "missing_loop ord H vals idx p f [] chain chainSet pendingSet =
     (Inr (chain @ [f]), chainSet)"
| "missing_loop ord H vals idx p f (t # ts) chain chainSet pendingSet =
     (let ms = lookup idx (Key t) in
      if ms \<noteq> [] then
        if \<exists>m \<in> set ms. m \<in> chainSet
        then missing_loop ord H vals idx p f ts chain chainSet pendingSet
        else (case mappers_loop ord H vals idx p t ms chain chainSet pendingSet of
                (Some nextChain, chainSet') \<Rightarrow>
                  missing_loop ord H vals idx p f ts nextChain chainSet' pendingSet
              | (None, chainSet') \<Rightarrow> (Inl (unable_to_map t), chainSet'))
      else (Inl (unable_to_map t), chainSet))"
| "mappers_loop ord H vals idx p t [] chain chainSet pendingSet = (None, chainSet)"
| "mappers_loop ord H vals idx p t (m # ms) chain chainSet pendingSet =
     (if m \<in> pendingSet then mappers_loop ord H vals idx p t ms chain chainSet pendingSet
      else (case func_chain ord H vals idx ((t, length ms) # p) m chain chainSet pendingSet of
              (Inr nextChain, chainSet') \<Rightarrow> (Some nextChain, chainSet')
            | (Inl err, chainSet') \<Rightarrow>
                mappers_loop ord H vals idx p t ms chain chainSet' pendingSet))"
  by pat_completeness auto

termination
proof (relation
    "(\<lambda>x. case x of
         Inl (ord, H, vals, idx, p, f, chain, cs, ps) \<Rightarrow> card (index_funcs idx - ps - {f})
       | Inr (Inl (ord, H, vals, idx, p, f, ts, chain, cs, ps)) \<Rightarrow> card (index_funcs idx - ps)
       | Inr (Inr (ord, H, vals, idx, p, t, ms, chain, cs, ps)) \<Rightarrow>
           card ((index_funcs idx \<union> set ms) - ps))
     <*mlex*>
     measures [\<lambda>x. case x of Inl _ \<Rightarrow> 2 | Inr (Inl _) \<Rightarrow> 1 | Inr (Inr _) \<Rightarrow> 0,
               \<lambda>x. case x of
                 Inl _ \<Rightarrow> 0
               | Inr (Inl (ord, H, vals, idx, p, f, ts, chain, cs, ps)) \<Rightarrow> length ts
               | Inr (Inr (ord, H, vals, idx, p, t, ms, chain, cs, ps)) \<Rightarrow> length ms]",
    goal_cases)
  case 1
  show ?case by (simp add: wf_mlex)
next
  case (2 ord H vals idx p f chain chainSet pendingSet x)
  have "index_funcs idx - insert f pendingSet = index_funcs idx - pendingSet - {f}" by auto
  then show ?case by (intro mlex_leq) simp_all
next
  case 3
  then show ?case by (intro mlex_leq) simp_all
next
  case (4 ord H vals idx p f t ts chain chainSet pendingSet x)
  have "index_funcs idx \<union> set (lookup idx (Key t)) = index_funcs idx"
    using lookup_index_funcs [of idx "Key t"] by auto
  with 4 show ?case by (intro mlex_leq) simp_all
next
  case 5
  then show ?case by (intro mlex_leq) simp_all
next
  case (6 ord H vals idx p t m ms chain chainSet pendingSet)
  have "card ((index_funcs idx \<union> set ms) - pendingSet)
      \<le> card ((index_funcs idx \<union> set (m # ms)) - pendingSet)"
    by (rule card_mono) (auto simp: finite_index_funcs)
  then show ?case by (intro mlex_leq) simp_all
next
  case (7 ord H vals idx p t m ms chain chainSet pendingSet)
  have "index_funcs idx - pendingSet - {m} \<subset> (index_funcs idx \<union> set (m # ms)) - pendingSet"
    using 7 by auto
  then have "card (index_funcs idx - pendingSet - {m})
      < card ((index_funcs idx \<union> set (m # ms)) - pendingSet)"
    by (intro psubset_card_mono) (auto simp: finite_index_funcs)
  then show ?case by (intro mlex_less) simp
next
  case (8 ord H vals idx p t m ms chain chainSet pendingSet x)
  have "card ((index_funcs idx \<union> set ms) - pendingSet)
      \<le> card ((index_funcs idx \<union> set (m # ms)) - pendingSet)"
    by (rule card_mono) (auto simp: finite_index_funcs)
  then show ?case by (intro mlex_leq) simp_all
qed

text \<open>\<open>Func_Chain\<close> is \<open>Func.Chain\<close> (lines 39 to 94).\<close>

definition Func_Chain :: "order \<Rightarrow> heap \<Rightarrow> fptr \<Rightarrow> fptr list \<Rightarrow> Value list \<Rightarrow> string + Chain" where
  "Func_Chain ord H f mappers vals =
     (let vals' = vals @ Values (H f) in
      if args (H f) vals' = [] then Inr \<lparr>funcs = [f], values = vals'\<rparr>
      else (case fst (func_chain ord H vals' (mapperByOut H mappers) [] f [] {} {}) of
              Inl err \<Rightarrow> Inl err
            | Inr chain \<Rightarrow> Inr \<lparr>funcs = chain, values = vals'\<rparr>))"

text \<open>
  \<open>ChainTarget\<close> (lines 15 to 30). Every call of \<open>Func.Chain\<close> walks its maps in an order
  of its own: the attempt on the entry at position \<open>i\<close> of the library uses \<open>ords i\<close>.
\<close>

fun ChainTarget_loop ::
    "(nat \<Rightarrow> order) \<Rightarrow> heap \<Rightarrow> (Type \<Rightarrow> bool) \<Rightarrow> fptr list \<Rightarrow> Value list \<Rightarrow> nat \<Rightarrow> fptr list
      \<Rightarrow> Chain option" where
  "ChainTarget_loop ords H check mappers vals i [] = None"
| "ChainTarget_loop ords H check mappers vals i (m # ms) =
     (if \<not> check (Out (H m)) then ChainTarget_loop ords H check mappers vals (Suc i) ms
      else (case Func_Chain (ords i) H m mappers vals of
              Inr chain \<Rightarrow> Some chain
            | Inl err \<Rightarrow> ChainTarget_loop ords H check mappers vals (Suc i) ms))"

definition ChainTarget ::
    "(nat \<Rightarrow> order) \<Rightarrow> heap \<Rightarrow> (Type \<Rightarrow> bool) \<Rightarrow> fptr list \<Rightarrow> Value list \<Rightarrow> Chain option" where
  "ChainTarget ords H check mappers vals = ChainTarget_loop ords H check mappers vals 0 mappers"

section \<open>Chain.Out and Chain.Call\<close>

text \<open>\<open>Chain.Out\<close> (line 304) indexes \<open>funcs\<close> at its last position; on an empty list Go panics.\<close>

definition Chain_Out :: "heap \<Rightarrow> Chain \<Rightarrow> Type option" where
  "Chain_Out H c = (if funcs c = [] then None else Some (Out (H (last (funcs c)))))"

text \<open>
  \<open>f.Prepare(c.values...).Call()\<close> is the execution capability of an invocable, outside this
  package: here a function of the invocable, the value pool it is bound against and the
  state of the world, giving an error or a result (\<open>None\<close> is the nil interface, for which
  \<open>reflect.ValueOf(result).IsValid()\<close> is false) and the new state of the world.
\<close>

type_synonym 's exec = "fptr \<Rightarrow> Value list \<Rightarrow> 's \<Rightarrow> (string + Value option) \<times> 's"

fun call_loop ::
    "'s exec \<Rightarrow> fptr list \<Rightarrow> Value list \<Rightarrow> Value option \<Rightarrow> 's
      \<Rightarrow> (string + Value option) \<times> Value list \<times> 's" where
  "call_loop ex [] vals result s = (Inr result, vals, s)"
| "call_loop ex (f # fs) vals result s =
     (case ex f vals s of
        (Inl err, s') \<Rightarrow> (Inl err, vals, s')
      | (Inr result', s') \<Rightarrow>
          call_loop ex fs (case result' of None \<Rightarrow> vals | Some v \<Rightarrow> vals @ [v]) result' s')"

text \<open>
  \<open>Chain.Call\<close> (lines 309 to 325) has a pointer receiver and assigns to \<open>c.values\<close> inside the
  loop: the chain after the call is returned with the result.
\<close>

definition Chain_Call :: "'s exec \<Rightarrow> Chain \<Rightarrow> 's \<Rightarrow> (string + Value option) \<times> Chain \<times> 's" where
  "Chain_Call ex c s =
     (case call_loop ex (funcs c) (values c) None s of
        (r, vals, s') \<Rightarrow> (r, c\<lparr>values := vals\<rparr>, s'))"

section \<open>Func.ChainInputSet\<close>

type_synonym typemap = "(tkey \<times> Type) list"

text \<open>Lines 141 to 157: the walk over \<open>f.Args\<close> that fills \<open>pending\<close> and \<open>missing\<close>.\<close>

fun arg_loop :: "(Type \<Rightarrow> bool) \<Rightarrow> Type list \<Rightarrow> typemap \<Rightarrow> typemap \<Rightarrow> typemap \<times> typemap" where
  "arg_loop check [] pending missing = (pending, missing)"
| "arg_loop check (arg # rest) pending missing =
     (if map_of pending (Key arg) \<noteq> None then arg_loop check rest pending missing
      else if \<not> check arg then arg_loop check rest pending (AList.update (Key arg) arg missing)
      else arg_loop check rest (AList.update (Key arg) arg pending) missing)"

text \<open>
  \<open>inputSet\<close> (lines 128 to 225); \<open>None\<close> is the nil map. \<open>inputSet_loop\<close> is the loop over
  the mappers that are left (lines 170 to 214). A mapper is marked visited for the
  recursive call only, so \<open>visited\<close> is passed down.
\<close>

function inputSet ::
    "heap \<Rightarrow> fptr list \<Rightarrow> (Type \<Rightarrow> bool) \<Rightarrow> fptr \<Rightarrow> fptr set \<Rightarrow> typemap \<Rightarrow> typemap option"
  and inputSet_loop ::
    "heap \<Rightarrow> fptr list \<Rightarrow> (Type \<Rightarrow> bool) \<Rightarrow> fptr list \<Rightarrow> fptr set \<Rightarrow> typemap \<Rightarrow> typemap
      \<Rightarrow> typemap option"
where
  "inputSet H mappers check f visited input =
     (case arg_loop check (Args (H f)) input [] of
        (pending, missing) \<Rightarrow>
          if missing = [] then Some pending
          else inputSet_loop H mappers check mappers visited pending missing)"
| "inputSet_loop H mappers check [] visited pending missing = None"
| "inputSet_loop H mappers check (m # ms) visited pending missing =
     (if m \<in> visited then inputSet_loop H mappers check ms visited pending missing
      else if map_of missing (Key (Out (H m))) = None
        then inputSet_loop H mappers check ms visited pending missing
      else (case inputSet H mappers check m (insert m visited) pending of
              None \<Rightarrow> inputSet_loop H mappers check ms visited pending missing
            | Some result \<Rightarrow>
                if AList.delete (Key (Out (H m))) missing = [] then Some result
                else inputSet_loop H mappers check ms visited result
                       (AList.delete (Key (Out (H m))) missing)))"
  by pat_completeness auto

termination
proof (relation
    "(\<lambda>x. case x of
         Inl (H, mappers, check, f, visited, input) \<Rightarrow> card (set mappers - visited)
       | Inr (H, mappers, check, ms, visited, pending, missing) \<Rightarrow>
           card ((set mappers \<union> set ms) - visited))
     <*mlex*>
     measures [\<lambda>x. case x of Inl _ \<Rightarrow> 1 | Inr _ \<Rightarrow> 0,
               \<lambda>x. case x of
                 Inl _ \<Rightarrow> 0
               | Inr (H, mappers, check, ms, visited, pending, missing) \<Rightarrow> length ms]",
    goal_cases)
  case 1
  show ?case by (simp add: wf_mlex)
next
  case 2
  then show ?case by (intro mlex_leq) simp_all
next
  case (3 H mappers check m ms visited pending missing)
  have "card ((set mappers \<union> set ms) - visited) \<le> card ((set mappers \<union> set (m # ms)) - visited)"
    by (rule card_mono) auto
  then show ?case by (intro mlex_leq) simp_all
next
  case (4 H mappers check m ms visited pending missing)
  have "card ((set mappers \<union> set ms) - visited) \<le> card ((set mappers \<union> set (m # ms)) - visited)"
    by (rule card_mono) auto
  then show ?case by (intro mlex_leq) simp_all
next
  case (5 H mappers check m ms visited pending missing)
  have "set mappers - insert m visited \<subset> (set mappers \<union> set (m # ms)) - visited"
    using 5 by auto
  then have "card (set mappers - insert m visited) < card ((set mappers \<union> set (m # ms)) - visited)"
    by (intro psubset_card_mono) auto
  then show ?case by (intro mlex_less) simp
next
  case (6 H mappers check m ms visited pending missing)
  have "card ((set mappers \<union> set ms) - visited) \<le> card ((set mappers \<union> set (m # ms)) - visited)"
    by (rule card_mono) auto
  then show ?case by (intro mlex_leq) simp_all
next
  case (7 H mappers check m ms visited pending missing x2)
  have "card ((set mappers \<union> set ms) - visited) \<le> card ((set mappers \<union> set (m # ms)) - visited)"
    by (rule card_mono) auto
  then show ?case by (intro mlex_leq) simp_all
qed

text \<open>
  \<open>ChainInputSet\<close> (lines 106 to 123). \<open>walk\<close> is the order in which the range over the
  returned map (lines 118 to 120) visits its entries.
\<close>

definition ChainInputSet ::
    "(Type list \<Rightarrow> Type list) \<Rightarrow> heap \<Rightarrow> fptr \<Rightarrow> fptr list \<Rightarrow> (Type \<Rightarrow> bool) \<Rightarrow> Type list option" where
  "ChainInputSet walk H f mappers check =
     (case inputSet H mappers check f {} [] of
        None \<Rightarrow> None
      | Some typeMap \<Rightarrow> Some (walk (map snd typeMap)))"

section \<open>Notions used to state the properties\<close>



text \<open>
  What the specification calls a type that can be satisfied: a type is satisfiable when
  it is supplied (by a value, or by the caller's predicate), or when some mapper of the
  library produces a type of the same key and every argument of that mapper is
  satisfiable. \<open>sat_level n\<close> bounds the number of mappers stacked on each other.
\<close>

inductive satisfiable :: "heap \<Rightarrow> fptr list \<Rightarrow> (Type \<Rightarrow> bool) \<Rightarrow> Type \<Rightarrow> bool"
  for H :: heap and mappers :: "fptr list" and P :: "Type \<Rightarrow> bool" where
  supplied: "P a \<Longrightarrow> satisfiable H mappers P a"
| mapped: "m \<in> set mappers \<Longrightarrow> Key (Out (H m)) = Key a \<Longrightarrow>
     (\<forall>b \<in> set (Args (H m)). satisfiable H mappers P b) \<Longrightarrow> satisfiable H mappers P a"

primrec sat_level :: "heap \<Rightarrow> fptr list \<Rightarrow> (Type \<Rightarrow> bool) \<Rightarrow> nat \<Rightarrow> Type \<Rightarrow> bool" where
  "sat_level H mappers P 0 a \<longleftrightarrow> P a"
| "sat_level H mappers P (Suc n) a \<longleftrightarrow>
     sat_level H mappers P n a \<or>
     (\<exists>m \<in> set mappers. Key (Out (H m)) = Key a \<and>
        (\<forall>b \<in> set (Args (H m)). sat_level H mappers P n b))"

definition respects_keys :: "(Type \<Rightarrow> bool) \<Rightarrow> bool" where
  "respects_keys P \<longleftrightarrow> (\<forall>a b. Key a = Key b \<longrightarrow> P a = P b)"

text \<open>
  To observe which invocables \<open>Chain.Call\<close> runs, an execution capability is wrapped so
  that every run appends the invocable and its outcome to a log kept in the state of the
  world. \<open>produced\<close> are the values that the runs of a log returned.
\<close>

type_synonym trace = "(fptr \<times> (string + Value option)) list"

definition traced :: "'s exec \<Rightarrow> ('s \<times> trace) exec" where
  "traced ex f vals sl =
     (case sl of (s, log) \<Rightarrow> (case ex f vals s of (r, s') \<Rightarrow> (r, (s', log @ [(f, r)]))))"

definition produced :: "trace \<Rightarrow> Value list" where
  "produced log = List.map_filter (\<lambda>(f, r). case r of Inr (Some v) \<Rightarrow> Some v | _ \<Rightarrow> None) log"

text \<open>
  Invariants of the search: every function in \<open>chainSet\<close> has all its arguments among the
  values, and the index lists under each key the library's mappers with that output key.
\<close>

definition chain_inv :: "heap \<Rightarrow> Value list \<Rightarrow> fptr set \<Rightarrow> bool" where
  "chain_inv H vals cs \<longleftrightarrow> (\<forall>g \<in> cs. args (H g) vals = [])"

definition index_of :: "heap \<Rightarrow> fptr list \<Rightarrow> index \<Rightarrow> bool" where
  "index_of H mappers idx \<longleftrightarrow> (\<forall>k. set (lookup idx k) = {m \<in> set mappers. Key (Out (H m)) = k})"






section \<open>Example libraries\<close>

text \<open>Two orders of walking a map: as the entries were inserted, and reversed.\<close>

definition arg_order :: order where
  "arg_order p xs = xs"

definition rev_order :: order where
  "rev_order p xs = rev xs"

definition same_order :: "nat \<Rightarrow> order" where
  "same_order i = arg_order"

definition tyT :: Type where "tyT = \<lparr>Key = 0, Name = ''T''\<rparr>"
definition tyInt :: Type where "tyInt = \<lparr>Key = 1, Name = ''Int''\<rparr>"
definition tyString :: Type where "tyString = \<lparr>Key = 2, Name = ''String''\<rparr>"
definition tyFloat :: Type where "tyFloat = \<lparr>Key = 3, Name = ''Float''\<rparr>"

definition mk :: "Type list \<Rightarrow> Type \<Rightarrow> Func" where
  "mk as out = \<lparr>Args = as, Out = out, Values = [], Label = []\<rparr>"

text \<open>
  The example of the specification: the target at address 0 needs an Int and a String,
  the mapper at 1 makes an Int from nothing, the mapper at 2 a String from an Int.
\<close>

definition ex_heap :: heap where
  "ex_heap = (\<lambda>_. mk [] tyT)
     (0 := mk [tyInt, tyString] tyT, 1 := mk [] tyInt, 2 := mk [tyInt] tyString)"

text \<open>
  The target at 0 needs a String and a Float; the mapper at 3 makes the Float from a
  String, so the mapper at 2 is needed by the target and by the mapper at 3.
\<close>

definition dup_heap :: heap where
  "dup_heap = (\<lambda>_. mk [] tyT)
     (0 := mk [tyString, tyFloat] tyT, 1 := mk [] tyInt, 2 := mk [tyInt] tyString,
      3 := mk [tyString] tyFloat)"

text \<open>The mapper at 1 needs an Int to make a String, the mapper at 2 a String to make an Int.\<close>

definition cyc_heap :: heap where
  "cyc_heap = (\<lambda>_. mk [] tyT) (1 := mk [tyInt] tyString, 2 := mk [tyString] tyInt)"

text \<open>
  The target at 0 needs a String; the mapper at 1 makes it from a Float, which nothing
  produces, the mapper at 2 makes it from nothing.
\<close>

definition alt_heap :: heap where
  "alt_heap = (\<lambda>_. mk [] tyT)
     (0 := mk [tyString] tyT, 1 := mk [tyFloat] tyString, 2 := mk [] tyString)"

definition anInt :: Value where "anInt = \<lparr>vtype = 1, vdata = 7\<rparr>"
definition aString :: Value where "aString = \<lparr>vtype = 2, vdata = 8\<rparr>"

text \<open>An execution capability with no state: the function at 1 returns an Int, every other one fails.\<close>

definition only_first :: "unit exec" where
  "only_first f vals s = (if f = 1 then (Inr (Some anInt), s) else (Inl ''boom'', s))"

definition accepts_String :: "Type \<Rightarrow> bool" where
  "accepts_String t \<longleftrightarrow> Key t = 2"

definition plain_walk :: "Type list \<Rightarrow> Type list" where
  "plain_walk xs = xs"





text \<open>
  The target at 0 needs a String; the mapper at 2 makes it from an Int and a Float, the
  mapper at 3 from an Int; the mapper at 1 makes the Int and nothing makes a Float.
\<close>

definition stale_heap :: heap where
  "stale_heap = (\<lambda>_. mk [] tyT)
     (0 := mk [tyString] tyT, 1 := mk [] tyInt, 2 := mk [tyInt, tyFloat] tyString,
      3 := mk [tyInt] tyString)"

definition accepts_none :: "Type \<Rightarrow> bool" where
  "accepts_none t \<longleftrightarrow> False"

section \<open>The target is the last function of a chain\<close>

lemma missing_loop_last:
  "missing_loop ord H vals idx p f ts chain cs ps = (Inr chain', cs')
    \<Longrightarrow> chain' \<noteq> [] \<and> last chain' = f"
proof (induction ts arbitrary: chain cs)
  case Nil
  then show ?case by auto
next
  case (Cons t ts)
  then show ?case
    by (auto simp: Let_def split: if_splits prod.splits option.splits)
qed

lemma func_chain_last:
  "func_chain ord H vals idx p f chain cs ps = (Inr chain', cs')
    \<Longrightarrow> chain' \<noteq> [] \<and> last chain' = f"
  by (auto simp: Let_def split: if_splits dest: missing_loop_last)

lemma Func_Chain_last:
  assumes "Func_Chain ord H f mappers vals = Inr c"
  shows "funcs c \<noteq> [] \<and> last (funcs c) = f"
proof (cases "args (H f) (vals @ Values (H f)) = []")
  case True
  with assms show ?thesis by (auto simp: Func_Chain_def)
next
  case False
  obtain r cs' where r: "func_chain ord H (vals @ Values (H f)) (mapperByOut H mappers) [] f [] {} {} = (r, cs')"
    by (cases "func_chain ord H (vals @ Values (H f)) (mapperByOut H mappers) [] f [] {} {}")
  with assms False obtain ch where "r = Inr ch" "funcs c = ch"
    by (auto simp: Func_Chain_def Let_def split: sum.splits)
  with r func_chain_last show ?thesis by blast
qed

section \<open>ChainTarget returns the first entry that resolves\<close>

lemma ChainTarget_loop_None:
  "ChainTarget_loop ords H check mappers vals i ms = None \<longleftrightarrow>
     (\<forall>j<length ms. \<not> (check (Out (H (ms ! j))) \<and>
        (\<exists>c. Func_Chain (ords (i + j)) H (ms ! j) mappers vals = Inr c)))"
proof (induction ms arbitrary: i)
  case Nil
  then show ?case by simp
next
  case (Cons m ms)
  have split: "(\<forall>j<length (m # ms). Q j) \<longleftrightarrow> Q 0 \<and> (\<forall>j<length ms. Q (Suc j))" for Q
    by (auto simp: less_Suc_eq_0_disj)
  show ?case
    unfolding split using Cons.IH [of "Suc i"]
    by (auto split: sum.splits)
qed

lemma ChainTarget_loop_Some:
  "ChainTarget_loop ords H check mappers vals i ms = Some c \<Longrightarrow>
     \<exists>j<length ms. check (Out (H (ms ! j))) \<and>
        Func_Chain (ords (i + j)) H (ms ! j) mappers vals = Inr c \<and>
        (\<forall>j'<j. \<not> (check (Out (H (ms ! j'))) \<and>
           (\<exists>c'. Func_Chain (ords (i + j')) H (ms ! j') mappers vals = Inr c')))"
proof (induction ms arbitrary: i)
  case Nil
  then show ?case by simp
next
  case (Cons m ms)
  show ?case
  proof (cases "check (Out (H m)) \<and> (\<exists>c'. Func_Chain (ords i) H m mappers vals = Inr c')")
    case True
    with Cons.prems have "Func_Chain (ords i) H m mappers vals = Inr c" by auto
    with True show ?thesis by (intro exI [of _ 0]) simp
  next
    case False
    with Cons.prems have "ChainTarget_loop ords H check mappers vals (Suc i) ms = Some c"
      by (auto split: sum.splits if_splits)
    from Cons.IH [OF this] obtain j where j: "j < length ms" "check (Out (H (ms ! j)))"
      "Func_Chain (ords (Suc i + j)) H (ms ! j) mappers vals = Inr c"
      "\<forall>j'<j. \<not> (check (Out (H (ms ! j'))) \<and>
           (\<exists>c'. Func_Chain (ords (Suc i + j')) H (ms ! j') mappers vals = Inr c'))"
      by blast
    have "\<forall>j'<Suc j. \<not> (check (Out (H ((m # ms) ! j'))) \<and>
           (\<exists>c'. Func_Chain (ords (i + j')) H ((m # ms) ! j') mappers vals = Inr c'))"
    proof (intro allI impI)
      fix j' assume "j' < Suc j"
      then show "\<not> (check (Out (H ((m # ms) ! j'))) \<and>
           (\<exists>c'. Func_Chain (ords (i + j')) H ((m # ms) ! j') mappers vals = Inr c'))"
        using False j(4) by (cases j') auto
    qed
    with j(1-3) show ?thesis by (intro exI [of _ "Suc j"]) simp
  qed
qed

section \<open>Auxiliary facts\<close>

subsection \<open>Association lists\<close>

lemma set_update_subset: "set (AList.update k v al) \<subseteq> insert (k, v) (set al)"
  by (induction al) auto



subsection \<open>The missing arguments\<close>

lemma foldl_missing_entries:
  "(k, t) \<in> set (foldl (missing_step vals) acc as) \<Longrightarrow>
     (k, t) \<in> set acc \<or> (Key t = k \<and> t \<in> set as \<and> \<not> matches vals t)"
proof (induction as arbitrary: acc)
  case Nil
  then show ?case by simp
next
  case (Cons a as)
  from Cons.IH [OF Cons.prems [simplified]]
  show ?case using set_update_subset [of "Key a" a acc]
    by (auto simp: missing_step_def split: if_splits)
qed

lemma foldl_missing_keys:
  "fst ` set (foldl (missing_step vals) acc as) =
     fst ` set acc \<union> Key ` {a \<in> set as. \<not> matches vals a}"
proof (induction as arbitrary: acc)
  case Nil
  then show ?case by simp
next
  case (Cons a as)
  show ?case
    by (simp add: Cons.IH) (auto simp: missing_step_def AList.dom_update)
qed

lemma args_entries:
  "(k, t) \<in> set (args f vals) \<Longrightarrow> Key t = k \<and> t \<in> set (Args f) \<and> \<not> matches vals t"
  using foldl_missing_entries [of k t vals "[]" "Args f"]
  by (simp add: args_def)

lemma args_keys: "fst ` set (args f vals) = Key ` {a \<in> set (Args f). \<not> matches vals a}"
  using foldl_missing_keys [of vals "[]" "Args f"]
  by (simp add: args_def)

lemma args_Nil_iff: "args f vals = [] \<longleftrightarrow> (\<forall>a \<in> set (Args f). matches vals a)"
proof -
  have "args f vals = [] \<longleftrightarrow> fst ` set (args f vals) = {}" by simp
  also have "\<dots> \<longleftrightarrow> (\<forall>a \<in> set (Args f). matches vals a)"
    unfolding args_keys by auto
  finally show ?thesis .
qed

subsection \<open>The index of mappers\<close>

lemma lookup_update:
  "lookup (AList.update k v idx) k' = (if k' = k then v else lookup idx k')"
  by (simp add: lookup_def AList.update_conv')

lemma lookup_mapperByOut:
  "lookup (mapperByOut H mappers) k = filter (\<lambda>m. Key (Out (H m)) = k) mappers"
proof (induction mappers arbitrary: k rule: rev_induct)
  case Nil
  then show ?case by (simp add: mapperByOut_def lookup_def)
next
  case (snoc m ms)
  have "mapperByOut H (ms @ [m]) =
      AList.update (Key (Out (H m))) (lookup (mapperByOut H ms) (Key (Out (H m))) @ [m])
        (mapperByOut H ms)"
    by (simp add: mapperByOut_def)
  then show ?case using snoc.IH by (simp add: lookup_update)
qed

subsection \<open>Satisfiable types\<close>


lemma sat_level_mono: "n \<le> n' \<Longrightarrow> sat_level H mappers P n a \<Longrightarrow> sat_level H mappers P n' a"
proof (induction n')
  case 0
  then show ?case by simp
next
  case (Suc n')
  show ?case
  proof (cases "n = Suc n'")
    case True
    with Suc.prems show ?thesis by simp
  next
    case False
    with Suc.prems have "n \<le> n'" by simp
    from Suc.IH [OF this Suc.prems(2)] show ?thesis by simp
  qed
qed

lemma sat_level_satisfiable: "sat_level H mappers P n a \<Longrightarrow> satisfiable H mappers P a"
proof (induction n arbitrary: a)
  case 0
  then show ?case by (auto intro: satisfiable.supplied)
next
  case (Suc n)
  then show ?case by (auto intro: satisfiable.mapped)
qed

lemma sat_level_list:
  assumes "\<forall>a \<in> set as. \<exists>n. sat_level H mappers P n a"
  shows "\<exists>n. \<forall>a \<in> set as. sat_level H mappers P n a"
  using assms
proof (induction as)
  case Nil
  then show ?case by simp
next
  case (Cons a as)
  then obtain n1 n2 where "sat_level H mappers P n1 a" "\<forall>b \<in> set as. sat_level H mappers P n2 b"
    by auto
  then have "\<forall>b \<in> set (a # as). sat_level H mappers P (max n1 n2) b"
    by (auto intro: sat_level_mono [of n1] sat_level_mono [of n2])
  then show ?case ..
qed

lemma satisfiable_sat_level: "satisfiable H mappers P a \<Longrightarrow> \<exists>n. sat_level H mappers P n a"
proof (induction rule: satisfiable.induct)
  case (supplied a)
  then have "sat_level H mappers P 0 a" by simp
  then show ?case ..
next
  case (mapped m a)
  then have "\<forall>b \<in> set (Args (H m)). \<exists>n. sat_level H mappers P n b" by blast
  from sat_level_list [OF this] obtain n where "\<forall>b \<in> set (Args (H m)). sat_level H mappers P n b" ..
  with mapped(1,2) have "sat_level H mappers P (Suc n) a" by auto
  then show ?case ..
qed

lemma sat_level_key:
  "respects_keys P \<Longrightarrow> Key a = Key b \<Longrightarrow> sat_level H mappers P n a \<Longrightarrow> sat_level H mappers P n b"
proof (induction n)
  case 0
  then have "P a = P b" unfolding respects_keys_def by blast
  with 0 show ?case by simp
next
  case (Suc n)
  from Suc.prems(3) consider "sat_level H mappers P n a"
    | m where "m \<in> set mappers" "Key (Out (H m)) = Key a"
        "\<forall>c \<in> set (Args (H m)). sat_level H mappers P n c"
    by auto
  then show ?case
  proof cases
    case 1
    from Suc.IH [OF Suc.prems(1,2) 1] show ?thesis by simp
  next
    case 2
    from 2(2) Suc.prems(2) have "Key (Out (H m)) = Key b" by simp
    with 2(1,3) show ?thesis unfolding sat_level.simps by blast
  qed
qed

lemma satisfiable_key:
  assumes "respects_keys P" "Key a = Key b" "satisfiable H mappers P a"
  shows "satisfiable H mappers P b"
proof -
  from satisfiable_sat_level [OF assms(3)] obtain n where "sat_level H mappers P n a" ..
  from sat_level_key [OF assms(1,2) this] show ?thesis by (rule sat_level_satisfiable)
qed

lemma respects_keys_matches: "respects_keys (matches vals)"
  by (simp add: respects_keys_def matches_def)

section \<open>The search succeeds exactly on satisfiable arguments\<close>

declare func_chain.simps [simp del]

lemma valid_order_set: "valid_order ord \<Longrightarrow> set (ord p xs) = set xs"
  using mset_eq_setD [of "ord p xs" xs] by (simp add: valid_order_def)

lemma chain_inv_insert: "chain_inv H vals cs \<Longrightarrow> args (H f) vals = [] \<Longrightarrow> chain_inv H vals (insert f cs)"
  by (simp add: chain_inv_def)

lemma satisfiable_args_Nil:
  assumes "args (H g) vals = []" "g \<in> set mappers" "Key (Out (H g)) = Key t"
  shows "satisfiable H mappers (matches vals) t"
proof -
  from assms(1) have "\<forall>b \<in> set (Args (H g)). satisfiable H mappers (matches vals) b"
    by (auto simp: args_Nil_iff intro: satisfiable.supplied)
  with assms(2,3) show ?thesis by (rule satisfiable.mapped)
qed

lemma satisfiable_missing:
  assumes "\<forall>t \<in> snd ` set (args (H f) vals). satisfiable H mappers (matches vals) t"
  shows "\<forall>a \<in> set (Args (H f)). satisfiable H mappers (matches vals) a"
proof
  fix a assume a: "a \<in> set (Args (H f))"
  show "satisfiable H mappers (matches vals) a"
  proof (cases "matches vals a")
    case True
    then show ?thesis by (rule satisfiable.supplied)
  next
    case False
    with a have "Key a \<in> fst ` set (args (H f) vals)" unfolding args_keys by blast
    then obtain t where t: "(Key a, t) \<in> set (args (H f) vals)" by auto
    then have "Key t = Key a" by (auto dest: args_entries)
    moreover from t assms have "satisfiable H mappers (matches vals) t" by force
    ultimately show ?thesis using satisfiable_key [OF respects_keys_matches] by blast
  qed
qed

lemma chain_sound:
  shows "valid_order ord \<longrightarrow> index_of H mappers idx \<longrightarrow> chain_inv H vals cs \<longrightarrow>
      chain_inv H vals (snd (func_chain ord H vals idx p f chain cs ps)) \<and>
      (\<forall>ch. fst (func_chain ord H vals idx p f chain cs ps) = Inr ch \<longrightarrow>
         (\<forall>a \<in> set (Args (H f)). satisfiable H mappers (matches vals) a))"
    and "valid_order ord \<longrightarrow> index_of H mappers idx \<longrightarrow> chain_inv H vals cs \<longrightarrow>
      chain_inv H vals (snd (missing_loop ord H vals idx p f ts chain cs ps)) \<and>
      (\<forall>ch. fst (missing_loop ord H vals idx p f ts chain cs ps) = Inr ch \<longrightarrow>
         (\<forall>t \<in> set ts. satisfiable H mappers (matches vals) t))"
    and "valid_order ord \<longrightarrow> index_of H mappers idx \<longrightarrow> chain_inv H vals cs \<longrightarrow>
      (\<forall>m \<in> set ms. m \<in> set mappers \<and> Key (Out (H m)) = Key t) \<longrightarrow>
      chain_inv H vals (snd (mappers_loop ord H vals idx p t ms chain cs ps)) \<and>
      (\<forall>ch. fst (mappers_loop ord H vals idx p t ms chain cs ps) = Some ch \<longrightarrow>
         satisfiable H mappers (matches vals) t)"
proof (induction ord H vals idx p f chain cs ps and ord H vals idx p f ts chain cs ps
    and ord H vals idx p t ms chain cs ps rule: func_chain_missing_loop_mappers_loop.induct)
  case (1 ord H vals idx p f chain cs ps)
  show ?case
  proof (intro impI)
    assume ord: "valid_order ord" and idx: "index_of H mappers idx" and inv: "chain_inv H vals cs"
    show "chain_inv H vals (snd (func_chain ord H vals idx p f chain cs ps)) \<and>
      (\<forall>ch. fst (func_chain ord H vals idx p f chain cs ps) = Inr ch \<longrightarrow>
         (\<forall>a \<in> set (Args (H f)). satisfiable H mappers (matches vals) a))"
    proof (cases "args (H f) vals = []")
      case True
      then have "func_chain ord H vals idx p f chain cs ps = (Inr (chain @ [f]), insert f cs)"
        by (simp add: func_chain.simps)
      moreover from True have "\<forall>a \<in> set (Args (H f)). satisfiable H mappers (matches vals) a"
        by (auto simp: args_Nil_iff intro: satisfiable.supplied)
      ultimately show ?thesis using chain_inv_insert [OF inv True] by simp
    next
      case False
      let ?ts = "ord p (map snd (args (H f) vals))"
      have eq: "func_chain ord H vals idx p f chain cs ps =
          missing_loop ord H vals idx p f ?ts chain cs (insert f ps)"
        using False by (simp add: func_chain.simps)
      from "1.IH" [OF refl False] ord idx inv
      have IH: "chain_inv H vals (snd (missing_loop ord H vals idx p f ?ts chain cs (insert f ps)))"
        "\<And>ch. fst (missing_loop ord H vals idx p f ?ts chain cs (insert f ps)) = Inr ch \<Longrightarrow>
           \<forall>t \<in> set ?ts. satisfiable H mappers (matches vals) t"
        by blast+
      from ord have ts: "set ?ts = snd ` set (args (H f) vals)"
        by (simp add: valid_order_set)
      then have "\<And>ch. fst (missing_loop ord H vals idx p f ?ts chain cs (insert f ps)) = Inr ch \<Longrightarrow>
           \<forall>t \<in> snd ` set (args (H f) vals). satisfiable H mappers (matches vals) t"
        using IH(2) by blast
      then have "\<And>ch. fst (missing_loop ord H vals idx p f ?ts chain cs (insert f ps)) = Inr ch \<Longrightarrow>
           \<forall>a \<in> set (Args (H f)). satisfiable H mappers (matches vals) a"
        by (rule satisfiable_missing)
      with IH(1) show ?thesis unfolding eq by blast
    qed
  qed
next
  case (2 ord H vals idx p f chain cs ps)
  show ?case by simp
next
  case (3 ord H vals idx p f t ts chain cs ps)
  show ?case
  proof (intro impI)
    assume ord: "valid_order ord" and idx: "index_of H mappers idx" and inv: "chain_inv H vals cs"
    let ?ms = "lookup idx (Key t)"
    let ?goal = "chain_inv H vals (snd (missing_loop ord H vals idx p f (t # ts) chain cs ps)) \<and>
      (\<forall>ch. fst (missing_loop ord H vals idx p f (t # ts) chain cs ps) = Inr ch \<longrightarrow>
         (\<forall>t \<in> set (t # ts). satisfiable H mappers (matches vals) t))"
    from idx have ms: "\<forall>m \<in> set ?ms. m \<in> set mappers \<and> Key (Out (H m)) = Key t"
      by (simp add: index_of_def)
    consider (none) "?ms = []" | (called) "?ms \<noteq> []" "\<exists>m \<in> set ?ms. m \<in> cs"
      | (search) "?ms \<noteq> []" "\<not> (\<exists>m \<in> set ?ms. m \<in> cs)" by blast
    then show ?goal
    proof cases
      case none
      then show ?thesis using inv by simp
    next
      case called
      then obtain m where m: "m \<in> set ?ms" "m \<in> cs" by blast
      with inv have "args (H m) vals = []" by (simp add: chain_inv_def)
      with m(1) ms have t: "satisfiable H mappers (matches vals) t"
        by (intro satisfiable_args_Nil [of H m]) auto
      from "3.IH"(1) [OF refl called] ord idx inv t called show ?thesis by simp
    next
      case search
      obtain r1 cs1 where r1: "mappers_loop ord H vals idx p t ?ms chain cs ps = (r1, cs1)"
        by (cases "mappers_loop ord H vals idx p t ?ms chain cs ps")
      from "3.IH"(2) [OF refl search] ord idx inv ms r1
      have inv1: "chain_inv H vals cs1"
        and t: "\<And>ch. r1 = Some ch \<Longrightarrow> satisfiable H mappers (matches vals) t"
        by auto
      show ?thesis
      proof (cases r1)
        case None
        with r1 search inv1 show ?thesis by simp
      next
        case (Some next_chain)
        from "3.IH"(3) [OF refl search r1 [symmetric] Some] ord idx inv1 t [OF Some] r1 Some search
        show ?thesis by simp
      qed
    qed
  qed
next
  case (4 ord H vals idx p t chain cs ps)
  show ?case by simp
next
  case (5 ord H vals idx p t m ms chain cs ps)
  show ?case
  proof (intro impI)
    assume ord: "valid_order ord" and idx: "index_of H mappers idx" and inv: "chain_inv H vals cs"
      and ms: "\<forall>m' \<in> set (m # ms). m' \<in> set mappers \<and> Key (Out (H m')) = Key t"
    let ?goal = "chain_inv H vals (snd (mappers_loop ord H vals idx p t (m # ms) chain cs ps)) \<and>
      (\<forall>ch. fst (mappers_loop ord H vals idx p t (m # ms) chain cs ps) = Some ch \<longrightarrow>
         satisfiable H mappers (matches vals) t)"
    show ?goal
    proof (cases "m \<in> ps")
      case True
      from "5.IH"(1) [OF True] ord idx inv ms True show ?thesis by simp
    next
      case False
      obtain r1 cs1 where r1: "func_chain ord H vals idx ((t, length ms) # p) m chain cs ps = (r1, cs1)"
        by (cases "func_chain ord H vals idx ((t, length ms) # p) m chain cs ps")
      from "5.IH"(2) [OF False] ord idx inv r1
      have inv1: "chain_inv H vals cs1"
        and args: "\<And>ch. r1 = Inr ch \<Longrightarrow> \<forall>a \<in> set (Args (H m)). satisfiable H mappers (matches vals) a"
        by auto
      show ?thesis
      proof (cases r1)
        case (Inr next_chain)
        from ms have "m \<in> set mappers" "Key (Out (H m)) = Key t" by auto
        then have "satisfiable H mappers (matches vals) t"
          using args [OF Inr] by (rule satisfiable.mapped)
        with r1 Inr False inv1 show ?thesis by simp
      next
        case (Inl err)
        from "5.IH"(3) [OF False r1 [symmetric] Inl] ord idx inv1 ms r1 Inl False
        show ?thesis by simp
      qed
    qed
  qed
qed


lemma sat_level_rank:
  "sat_level H mappers P n t \<Longrightarrow> \<not> P t \<Longrightarrow>
     \<exists>k<n. \<not> sat_level H mappers P k t \<and>
       (\<exists>m \<in> set mappers. Key (Out (H m)) = Key t \<and>
          (\<forall>b \<in> set (Args (H m)). sat_level H mappers P k b))"
proof (induction n)
  case 0
  then show ?case by simp
next
  case (Suc n)
  show ?case
  proof (cases "sat_level H mappers P n t")
    case True
    from Suc.IH [OF this Suc.prems(2)] show ?thesis by (blast intro: less_SucI)
  next
    case False
    with Suc.prems(1) have "\<exists>m \<in> set mappers. Key (Out (H m)) = Key t \<and>
          (\<forall>b \<in> set (Args (H m)). sat_level H mappers P n b)" by simp
    with False show ?thesis by blast
  qed
qed

lemma chain_complete:
  shows "valid_order ord \<longrightarrow> index_of H mappers idx \<longrightarrow>
      (\<forall>n. (\<forall>a \<in> set (Args (H f)). sat_level H mappers (matches vals) n a) \<and>
           (\<forall>g \<in> ps. \<exists>a \<in> set (Args (H g)). \<not> sat_level H mappers (matches vals) n a) \<longrightarrow>
           (\<exists>ch. fst (func_chain ord H vals idx p f chain cs ps) = Inr ch))"
    and "valid_order ord \<longrightarrow> index_of H mappers idx \<longrightarrow>
      (\<forall>n. (\<forall>t \<in> set ts. sat_level H mappers (matches vals) n t \<and> \<not> matches vals t \<and>
              (\<exists>a \<in> set (Args (H f)). Key a = Key t)) \<and>
           (\<forall>g \<in> ps - {f}. \<exists>a \<in> set (Args (H g)). \<not> sat_level H mappers (matches vals) n a) \<longrightarrow>
           (\<exists>ch. fst (missing_loop ord H vals idx p f ts chain cs ps) = Inr ch))"
    and "valid_order ord \<longrightarrow> index_of H mappers idx \<longrightarrow>
      (\<forall>k. (\<exists>m \<in> set ms. \<forall>b \<in> set (Args (H m)). sat_level H mappers (matches vals) k b) \<and>
           (\<forall>g \<in> ps. \<exists>a \<in> set (Args (H g)). \<not> sat_level H mappers (matches vals) k a) \<longrightarrow>
           (\<exists>ch. fst (mappers_loop ord H vals idx p t ms chain cs ps) = Some ch))"
proof (induction ord H vals idx p f chain cs ps and ord H vals idx p f ts chain cs ps
    and ord H vals idx p t ms chain cs ps rule: func_chain_missing_loop_mappers_loop.induct)
  case (1 ord H vals idx p f chain cs ps)
  show ?case
  proof (intro impI allI, elim conjE)
    fix n
    assume ord: "valid_order ord" and idx: "index_of H mappers idx"
      and lvl: "\<forall>a \<in> set (Args (H f)). sat_level H mappers (matches vals) n a"
      and pend: "\<forall>g \<in> ps. \<exists>a \<in> set (Args (H g)). \<not> sat_level H mappers (matches vals) n a"
    show "\<exists>ch. fst (func_chain ord H vals idx p f chain cs ps) = Inr ch"
    proof (cases "args (H f) vals = []")
      case True
      then show ?thesis by (simp add: func_chain.simps)
    next
      case False
      let ?ts = "ord p (map snd (args (H f) vals))"
      have eq: "func_chain ord H vals idx p f chain cs ps =
          missing_loop ord H vals idx p f ?ts chain cs (insert f ps)"
        using False by (simp add: func_chain.simps)
      from ord have ts: "set ?ts = snd ` set (args (H f) vals)"
        by (simp add: valid_order_set)
      have "\<forall>t \<in> set ?ts. sat_level H mappers (matches vals) n t \<and> \<not> matches vals t \<and>
              (\<exists>a \<in> set (Args (H f)). Key a = Key t)"
      proof
        fix t assume "t \<in> set ?ts"
        with ts obtain k where "(k, t) \<in> set (args (H f) vals)" by auto
        then have "t \<in> set (Args (H f))" "\<not> matches vals t" by (auto dest: args_entries)
        with lvl show "sat_level H mappers (matches vals) n t \<and> \<not> matches vals t \<and>
              (\<exists>a \<in> set (Args (H f)). Key a = Key t)" by blast
      qed
      moreover from pend
      have "\<forall>g \<in> insert f ps - {f}. \<exists>a \<in> set (Args (H g)). \<not> sat_level H mappers (matches vals) n a"
        by blast
      ultimately show ?thesis
        using "1.IH" [OF refl False] ord idx unfolding eq by blast
    qed
  qed
next
  case (2 ord H vals idx p f chain cs ps)
  show ?case by simp
next
  case (3 ord H vals idx p f t ts chain cs ps)
  show ?case
  proof (intro impI allI, elim conjE)
    fix n
    assume ord: "valid_order ord" and idx: "index_of H mappers idx"
      and lvl: "\<forall>t' \<in> set (t # ts). sat_level H mappers (matches vals) n t' \<and> \<not> matches vals t' \<and>
              (\<exists>a \<in> set (Args (H f)). Key a = Key t')"
      and pend: "\<forall>g \<in> ps - {f}. \<exists>a \<in> set (Args (H g)). \<not> sat_level H mappers (matches vals) n a"
    let ?L = "sat_level H mappers (matches vals)"
    let ?ms = "lookup idx (Key t)"
    from lvl have t: "?L n t" "\<not> matches vals t" and ft: "\<exists>a \<in> set (Args (H f)). Key a = Key t"
      and rest: "\<forall>t' \<in> set ts. ?L n t' \<and> \<not> matches vals t' \<and>
              (\<exists>a \<in> set (Args (H f)). Key a = Key t')"
      by simp_all
    from sat_level_rank [OF t] obtain k m where k: "k < n" "\<not> ?L k t"
      and m: "m \<in> set mappers" "Key (Out (H m)) = Key t" "\<forall>b \<in> set (Args (H m)). ?L k b"
      by blast
    from m(1,2) idx have m_in: "m \<in> set ?ms" by (simp add: index_of_def)
    then have ne: "?ms \<noteq> []" by auto
    show "\<exists>ch. fst (missing_loop ord H vals idx p f (t # ts) chain cs ps) = Inr ch"
    proof (cases "\<exists>m \<in> set ?ms. m \<in> cs")
      case True
      from "3.IH"(1) [OF refl ne True] ord idx rest pend
      have "\<exists>ch. fst (missing_loop ord H vals idx p f ts chain cs ps) = Inr ch" by blast
      with ne True show ?thesis by simp
    next
      case False
      have "\<forall>g \<in> ps. \<exists>a \<in> set (Args (H g)). \<not> ?L k a"
      proof
        fix g assume g: "g \<in> ps"
        show "\<exists>a \<in> set (Args (H g)). \<not> ?L k a"
        proof (cases "g = f")
          case True
          from ft obtain a where a: "a \<in> set (Args (H f))" "Key a = Key t" by blast
          have "\<not> ?L k a"
            using k(2) sat_level_key [OF respects_keys_matches a(2)] by blast
          with a(1) True show ?thesis by blast
        next
          case False
          with g pend obtain a where "a \<in> set (Args (H g))" "\<not> ?L n a" by blast
          moreover from k(1) have "k \<le> n" by simp
          ultimately show ?thesis using sat_level_mono by blast
        qed
      qed
      with "3.IH"(2) [OF refl ne False] ord idx m_in m(3)
      obtain ch where ch: "fst (mappers_loop ord H vals idx p t ?ms chain cs ps) = Some ch"
        by blast
      obtain cs1 where r1: "mappers_loop ord H vals idx p t ?ms chain cs ps = (Some ch, cs1)"
        using ch by (cases "mappers_loop ord H vals idx p t ?ms chain cs ps") auto
      from "3.IH"(3) [OF refl ne False r1 [symmetric] refl] ord idx rest pend
      have "\<exists>ch'. fst (missing_loop ord H vals idx p f ts ch cs1 ps) = Inr ch'" by blast
      with ne False r1 show ?thesis by simp
    qed
  qed
next
  case (4 ord H vals idx p t chain cs ps)
  show ?case by simp
next
  case (5 ord H vals idx p t m ms chain cs ps)
  show ?case
  proof (intro impI allI, elim conjE bexE)
    fix k m'
    assume ord: "valid_order ord" and idx: "index_of H mappers idx"
      and m': "m' \<in> set (m # ms)" "\<forall>b \<in> set (Args (H m')). sat_level H mappers (matches vals) k b"
      and pend: "\<forall>g \<in> ps. \<exists>a \<in> set (Args (H g)). \<not> sat_level H mappers (matches vals) k a"
    show "\<exists>ch. fst (mappers_loop ord H vals idx p t (m # ms) chain cs ps) = Some ch"
    proof (cases "m \<in> ps")
      case True
      with pend m'(2) have "m' \<noteq> m" by blast
      with m'(1) have "m' \<in> set ms" by simp
      with "5.IH"(1) [OF True] ord idx m'(2) pend
      have "\<exists>ch. fst (mappers_loop ord H vals idx p t ms chain cs ps) = Some ch" by blast
      with True show ?thesis by simp
    next
      case False
      obtain r1 cs1 where r1: "func_chain ord H vals idx ((t, length ms) # p) m chain cs ps = (r1, cs1)"
        by (cases "func_chain ord H vals idx ((t, length ms) # p) m chain cs ps")
      show ?thesis
      proof (cases r1)
        case (Inr ch)
        with r1 False show ?thesis by simp
      next
        case (Inl err)
        have "m' \<noteq> m"
        proof
          assume "m' = m"
          with "5.IH"(2) [OF False] ord idx m'(2) pend
          have "\<exists>ch. fst (func_chain ord H vals idx ((t, length ms) # p) m chain cs ps) = Inr ch"
            by blast
          with r1 Inl show False by simp
        qed
        with m'(1) have "m' \<in> set ms" by simp
        with "5.IH"(3) [OF False r1 [symmetric] Inl] ord idx m'(2) pend
        have "\<exists>ch. fst (mappers_loop ord H vals idx p t ms chain cs1 ps) = Some ch" by blast
        with r1 Inl False show ?thesis by simp
      qed
    qed
  qed
qed


lemma index_of_mapperByOut: "index_of H mappers (mapperByOut H mappers)"
  by (simp add: index_of_def lookup_mapperByOut)

lemma chain_inv_empty: "chain_inv H vals {}"
  by (simp add: chain_inv_def)

lemma Func_Chain_sound:
  assumes "valid_order ord" and "Func_Chain ord H f mappers vals = Inr c"
  shows "\<forall>a \<in> set (Args (H f)). satisfiable H mappers (matches (vals @ Values (H f))) a"
proof (cases "args (H f) (vals @ Values (H f)) = []")
  case True
  then show ?thesis by (auto simp: args_Nil_iff intro: satisfiable.supplied)
next
  case False
  with assms(2) obtain ch where
    "fst (func_chain ord H (vals @ Values (H f)) (mapperByOut H mappers) [] f [] {} {}) = Inr ch"
    by (auto simp: Func_Chain_def Let_def split: sum.splits)
  with chain_sound(1) [of ord H mappers "mapperByOut H mappers" "vals @ Values (H f)" "{}" "[]" f "[]" "{}"]
    assms(1) index_of_mapperByOut chain_inv_empty
  show ?thesis by blast
qed


lemma mappers_loop_satisfiable:
  assumes ord: "valid_order ord" and idx: "index_of H mappers idx"
    and sat: "satisfiable H mappers (matches vals) t" and t: "\<not> matches vals t"
    and f: "\<exists>a \<in> set (Args (H f)). Key a = Key t"
  shows "\<exists>ch. fst (mappers_loop ord H vals idx p t (lookup idx (Key t)) chain cs {f}) = Some ch"
proof -
  let ?L = "sat_level H mappers (matches vals)"
  from satisfiable_sat_level [OF sat] obtain n where "?L n t" ..
  from sat_level_rank [OF this t] obtain k m where k: "\<not> ?L k t"
    and m: "m \<in> set mappers" "Key (Out (H m)) = Key t" "\<forall>b \<in> set (Args (H m)). ?L k b"
    by blast
  from m(1,2) idx have m_in: "m \<in> set (lookup idx (Key t))" by (simp add: index_of_def)
  from f obtain a where a: "a \<in> set (Args (H f))" "Key a = Key t" by blast
  have "\<not> ?L k a" using k sat_level_key [OF respects_keys_matches a(2)] by blast
  with a(1) have "\<forall>g \<in> {f}. \<exists>a \<in> set (Args (H g)). \<not> ?L k a" by blast
  with chain_complete(3) [of ord H mappers idx "lookup idx (Key t)" vals "{f}" p t chain cs]
    ord idx m_in m(3)
  show ?thesis by blast
qed

lemma missing_loop_error_unsatisfiable:
  assumes ord: "valid_order ord" and idx: "index_of H mappers idx"
  shows "missing_loop ord H vals idx p f ts chain cs {f} = (Inl err, cs') \<Longrightarrow>
    \<forall>t \<in> set ts. \<not> matches vals t \<and> (\<exists>a \<in> set (Args (H f)). Key a = Key t) \<Longrightarrow>
    \<exists>t \<in> set ts. err = unable_to_map t \<and> \<not> satisfiable H mappers (matches vals) t"
proof (induction ts arbitrary: chain cs)
  case Nil
  then show ?case by simp
next
  case (Cons t ts)
  let ?ms = "lookup idx (Key t)"
  from Cons.prems(2) have t: "\<not> matches vals t" "\<exists>a \<in> set (Args (H f)). Key a = Key t"
    and rest: "\<forall>t \<in> set ts. \<not> matches vals t \<and> (\<exists>a \<in> set (Args (H f)). Key a = Key t)"
    by simp_all
  show ?case
  proof (cases "?ms = []")
    case True
    have "\<not> satisfiable H mappers (matches vals) t"
    proof
      assume "satisfiable H mappers (matches vals) t"
      then show False
      proof (cases rule: satisfiable.cases)
        case supplied
        with t(1) show False by simp
      next
        case (mapped m)
        with idx have "m \<in> set ?ms" by (simp add: index_of_def)
        with True show False by simp
      qed
    qed
    moreover from True Cons.prems(1) have "err = unable_to_map t" by simp
    ultimately show ?thesis by simp
  next
    case ne: False
    show ?thesis
    proof (cases "\<exists>m \<in> set ?ms. m \<in> cs")
      case True
      with ne Cons.prems(1) have "missing_loop ord H vals idx p f ts chain cs {f} = (Inl err, cs')"
        by simp
      from Cons.IH [OF this rest] show ?thesis by auto
    next
      case False
      obtain r1 cs1 where r1: "mappers_loop ord H vals idx p t ?ms chain cs {f} = (r1, cs1)"
        by (cases "mappers_loop ord H vals idx p t ?ms chain cs {f}")
      show ?thesis
      proof (cases r1)
        case None
        have "\<not> satisfiable H mappers (matches vals) t"
        proof
          assume "satisfiable H mappers (matches vals) t"
          from mappers_loop_satisfiable [OF ord idx this t, of p chain cs] r1 None
          show False by simp
        qed
        moreover from ne False r1 None Cons.prems(1) have "err = unable_to_map t" by simp
        ultimately show ?thesis by simp
      next
        case (Some ch)
        with ne False r1 Cons.prems(1)
        have "missing_loop ord H vals idx p f ts ch cs1 {f} = (Inl err, cs')" by simp
        from Cons.IH [OF this rest] show ?thesis by auto
      qed
    qed
  qed
qed

lemma Func_Chain_error_unsatisfiable:
  assumes "valid_order ord" and "Func_Chain ord H f mappers vals = Inl err"
  shows "\<exists>t \<in> set (Args (H f)). \<not> matches (vals @ Values (H f)) t \<and>
     \<not> satisfiable H mappers (matches (vals @ Values (H f))) t \<and> err = unable_to_map t"
proof -
  let ?vals = "vals @ Values (H f)"
  let ?ts = "ord [] (map snd (args (H f) ?vals))"
  from assms(2) have ne: "args (H f) ?vals \<noteq> []"
    by (auto simp: Func_Chain_def Let_def split: if_splits)
  obtain r cs' where r: "func_chain ord H ?vals (mapperByOut H mappers) [] f [] {} {} = (r, cs')"
    by (cases "func_chain ord H ?vals (mapperByOut H mappers) [] f [] {} {}")
  with assms(2) ne have "r = Inl err"
    by (auto simp: Func_Chain_def Let_def split: sum.splits)
  with r ne have loop: "missing_loop ord H ?vals (mapperByOut H mappers) [] f ?ts [] {} {f} = (Inl err, cs')"
    by (simp add: func_chain.simps)
  have ts: "\<forall>t \<in> set ?ts. t \<in> set (Args (H f)) \<and> \<not> matches ?vals t"
  proof
    fix t assume "t \<in> set ?ts"
    with assms(1) have "t \<in> snd ` set (args (H f) ?vals)" by (simp add: valid_order_set)
    then obtain k where "(k, t) \<in> set (args (H f) ?vals)" by auto
    then show "t \<in> set (Args (H f)) \<and> \<not> matches ?vals t" by (auto dest: args_entries)
  qed
  then have "\<forall>t \<in> set ?ts. \<not> matches ?vals t \<and> (\<exists>a \<in> set (Args (H f)). Key a = Key t)"
    by blast
  from missing_loop_error_unsatisfiable [OF assms(1) index_of_mapperByOut loop this]
  obtain t where "t \<in> set ?ts" "err = unable_to_map t" "\<not> satisfiable H mappers (matches ?vals) t"
    by blast
  with ts show ?thesis by blast
qed

subsection \<open>A returned chain is resolved\<close>






section \<open>What Chain.Call runs\<close>

lemma traced_apply:
  "traced ex f vals (s, log) = (case ex f vals s of (r, s') \<Rightarrow> (r, (s', log @ [(f, r)])))"
  by (simp add: traced_def)

lemma produced_simps [simp]:
  "produced [] = []"
  "produced ((f, Inr (Some v)) # log) = v # produced log"
  "produced ((f, Inr None) # log) = produced log"
  "produced ((f, Inl e) # log) = produced log"
  by (simp_all add: produced_def)

lemma call_loop_traced:
  "call_loop (traced ex) fs vals res0 (s, log0) = (r, vals', (s', log)) \<Longrightarrow>
     \<exists>new. log = log0 @ new \<and> prefix (map fst new) fs \<and>
       (\<forall>e \<in> set (butlast new). \<not> isl (snd e)) \<and>
       vals' = vals @ produced (butlast new) @ (if isl r then [] else produced (if new = [] then [] else [last new])) \<and>
       (case r of
          Inl err \<Rightarrow> new \<noteq> [] \<and> snd (last new) = Inl err
        | Inr res \<Rightarrow> map fst new = fs \<and> (\<forall>e \<in> set new. \<not> isl (snd e)) \<and>
            res = (if new = [] then res0 else projr (snd (last new))))"
proof (induction fs arbitrary: vals res0 s log0)
  case Nil
  then show ?case by auto
next
  case (Cons f fs)
  obtain r1 s1 where ex: "ex f vals s = (r1, s1)" by (cases "ex f vals s")
  show ?case
  proof (cases r1)
    case (Inl err)
    with Cons.prems ex have "r = Inl err" "vals' = vals" "log = log0 @ [(f, Inl err)]"
      by (auto simp: traced_apply)
    then show ?thesis by (intro exI [of _ "[(f, Inl err)]"]) simp
  next
    case (Inr res1)
    let ?vals1 = "case res1 of None \<Rightarrow> vals | Some v \<Rightarrow> vals @ [v]"
    from Cons.prems ex Inr
    have "call_loop (traced ex) fs ?vals1 res1 (s1, log0 @ [(f, Inr res1)]) = (r, vals', (s', log))"
      by (auto simp: traced_apply)
    from Cons.IH [OF this] obtain new where new:
      "log = (log0 @ [(f, Inr res1)]) @ new" "prefix (map fst new) fs"
      "\<forall>e \<in> set (butlast new). \<not> isl (snd e)"
      "vals' = ?vals1 @ produced (butlast new) @ (if isl r then [] else produced (if new = [] then [] else [last new]))"
      "case r of
          Inl err \<Rightarrow> new \<noteq> [] \<and> snd (last new) = Inl err
        | Inr res \<Rightarrow> map fst new = fs \<and> (\<forall>e \<in> set new. \<not> isl (snd e)) \<and>
            res = (if new = [] then res1 else projr (snd (last new)))"
      by blast
    have v1: "?vals1 = vals @ produced [(f, Inr res1)]" by (cases res1) simp_all
    show ?thesis
    proof (intro exI [of _ "(f, Inr res1) # new"] conjI)
      show "log = log0 @ (f, Inr res1) # new" using new(1) by simp
      show "prefix (map fst ((f, Inr res1) # new)) (f # fs)" using new(2) by simp
      show "\<forall>e \<in> set (butlast ((f, Inr res1) # new)). \<not> isl (snd e)" using new(3) by auto
      show "vals' = vals @ produced (butlast ((f, Inr res1) # new)) @
          (if isl r then [] else produced (if (f, Inr res1) # new = [] then [] else [last ((f, Inr res1) # new)]))"
        using new(4,5) v1 by (cases res1; cases r; cases "new = []") (auto)
      show "case r of
          Inl err \<Rightarrow> (f, Inr res1) # new \<noteq> [] \<and> snd (last ((f, Inr res1) # new)) = Inl err
        | Inr res \<Rightarrow> map fst ((f, Inr res1) # new) = f # fs \<and>
            (\<forall>e \<in> set ((f, Inr res1) # new). \<not> isl (snd e)) \<and>
            res = (if (f, Inr res1) # new = [] then res0 else projr (snd (last ((f, Inr res1) # new))))"
        using new(5) by (cases r) auto
    qed
  qed
qed

lemma Chain_Call_traced:
  assumes "Chain_Call (traced ex) c (s, []) = (r, c', (s', log))"
  shows "funcs c' = funcs c \<and> prefix (map fst log) (funcs c) \<and>
     (\<forall>e \<in> set (butlast log). \<not> isl (snd e)) \<and>
     values c' = values c @ produced (butlast log) @
       (if isl r then [] else produced (if log = [] then [] else [last log])) \<and>
     (case r of
        Inl err \<Rightarrow> log \<noteq> [] \<and> snd (last log) = Inl err
      | Inr res \<Rightarrow> map fst log = funcs c \<and> (\<forall>e \<in> set log. \<not> isl (snd e)) \<and>
          res = (if log = [] then None else projr (snd (last log))))"
proof -
  obtain vals' where loop: "call_loop (traced ex) (funcs c) (values c) None (s, []) = (r, vals', (s', log))"
    and c': "c' = c\<lparr>values := vals'\<rparr>"
    using assms by (auto simp: Chain_Call_def split: prod.splits)
  from call_loop_traced [OF loop] c' show ?thesis by auto
qed

section \<open>The input set is sound and complete for satisfiable arguments\<close>











declare inputSet.simps [simp del]









section \<open>Evaluation on the examples\<close>

lemmas eval_defs = Func_Chain_def args_def missing_step_def matches_def mapperByOut_def
  lookup_def unable_to_map_def Let_def arg_order_def rev_order_def mk_def
  tyT_def tyInt_def tyString_def tyFloat_def anInt_def aString_def

lemma valid_arg_order: "valid_order arg_order"
  by (simp add: valid_order_def arg_order_def)

lemma valid_rev_order: "valid_order rev_order"
  by (simp add: valid_order_def rev_order_def)

lemma valid_order_single: "valid_order ord \<Longrightarrow> ord p [x] = [x]"
  using mset_single_iff [of "ord p [x]" x] by (simp add: valid_order_def)

lemma mset_pair:
  assumes "mset xs = {#x, y#}"
  shows "xs = [x, y] \<or> xs = [y, x]"
proof -
  from assms have "size (mset xs) = size {#x, y#}" by simp
  then have "length xs = Suc (Suc 0)" by simp
  then obtain a b where xs: "xs = [a, b]"
    by (auto simp: length_Suc_conv)
  with assms have "add_mset a {#b#} = add_mset x {#y#}" by (simp add: add_mset_commute)
  then have "(a = x \<and> b = y) \<or> (a = y \<and> b = x)"
    by (auto simp: add_eq_conv_diff)
  with xs show ?thesis by auto
qed

lemma valid_order_pair: "valid_order ord \<Longrightarrow> ord p [x, y] = [x, y] \<or> ord p [x, y] = [y, x]"
  using mset_pair [of "ord p [x, y]" y x] by (auto simp: valid_order_def)

section \<open>The claims\<close>

text \<open>
  C1 says that a chain built by \<open>Func.Chain\<close> holds no function twice. The code does not
  keep that: a function that is appended after its missing arguments were resolved
  (line 289) is not added to \<open>chainSet\<close>, as line 242 does for a function without missing
  arguments. On the library where the mapper at 2 is needed by the target and by the
  mapper at 3, the chain holds the mapper at 2 twice, in whatever order the maps are
  walked.
\<close>

theorem Chain_repeats_function:
  assumes "valid_order ord"
  shows "\<exists>c. Func_Chain ord dup_heap 0 [1, 2, 3] [] = Inr c \<and> \<not> distinct (funcs c)"
proof -
  note single = valid_order_single [OF assms]
  from valid_order_pair [OF assms, of "[]" tyString tyFloat]
  show ?thesis
  proof
    assume "ord [] [tyString, tyFloat] = [tyString, tyFloat]"
    then have "Func_Chain ord dup_heap 0 [1, 2, 3] [] = Inr \<lparr>funcs = [1, 2, 2, 3, 0], values = []\<rparr>"
      by (simp add: eval_defs dup_heap_def func_chain.simps single)
    then show ?thesis by simp
  next
    assume "ord [] [tyString, tyFloat] = [tyFloat, tyString]"
    then have "Func_Chain ord dup_heap 0 [1, 2, 3] [] = Inr \<lparr>funcs = [1, 2, 3, 2, 0], values = []\<rparr>"
      by (simp add: eval_defs dup_heap_def func_chain.simps single)
    then show ?thesis by simp
  qed
qed

theorem Chain_repeats_function_witness:
  "valid_order arg_order \<and>
   Func_Chain arg_order dup_heap 0 [1, 2, 3] [] = Inr \<lparr>funcs = [1, 2, 2, 3, 0], values = []\<rparr> \<and>
   \<not> distinct [1, 2, 2, 3, 0 :: nat]"
proof -
  have "Func_Chain arg_order dup_heap 0 [1, 2, 3] [] = Inr \<lparr>funcs = [1, 2, 2, 3, 0], values = []\<rparr>"
    by (simp add: eval_defs dup_heap_def func_chain.simps)
  with Chain_repeats_function [OF valid_arg_order] valid_arg_order show ?thesis by simp
qed

text \<open>
  C2, as amended: when \<open>Chain.Call\<close> fails at a function, the value pool of the chain is
  afterwards the pool before the call followed by the results of the functions that ran
  before the failing one, in that order; nothing is taken back.
\<close>

theorem Chain_Call_failure_keeps_results:
  assumes "Chain_Call (traced ex) c (s, []) = (Inl err, c', (s', log))"
  shows "funcs c' = funcs c \<and> values c' = values c @ produced (butlast log)"
  using Chain_Call_traced [OF assms] by simp

theorem Chain_Call_failure_keeps_results_witness:
  "Chain_Call (traced only_first) \<lparr>funcs = [1, 2, 0], values = [aString]\<rparr> ((), [])
     = (Inl ''boom'', \<lparr>funcs = [1, 2, 0], values = [aString, anInt]\<rparr>,
        ((), [(1, Inr (Some anInt)), (2, Inl ''boom'')])) \<and>
   [aString, anInt] = [aString] @ produced (butlast [(1, Inr (Some anInt)), (2, Inl ''boom'')])"
proof -
  have h: "Chain_Call (traced only_first) \<lparr>funcs = [1, 2, 0], values = [aString]\<rparr> ((), [])
     = (Inl ''boom'', \<lparr>funcs = [1, 2, 0], values = [aString, anInt]\<rparr>,
        ((), [(1, Inr (Some anInt)), (2, Inl ''boom'')]))"
    by (simp add: Chain_Call_def traced_apply only_first_def)
  from Chain_Call_failure_keeps_results [OF h] h show ?thesis by simp
qed

text \<open>
  The claim as it was stated fails: the function at 1 succeeds, the function at 2 fails,
  and the pool of the chain holds the result of the function at 1 after the failed call.
\<close>

theorem Chain_Call_failure_counterexample:
  "Chain_Call only_first \<lparr>funcs = [1, 2, 0], values = []\<rparr> ()
     = (Inl ''boom'', \<lparr>funcs = [1, 2, 0], values = [anInt]\<rparr>, ()) \<and>
   values \<lparr>funcs = [1, 2, 0], values = [anInt]\<rparr> \<noteq> values \<lparr>funcs = [1, 2, 0], values = []\<rparr>"
  by (simp add: Chain_Call_def only_first_def)




text \<open>
  What the amended statement leaves open. A candidate that fails leaves in \<open>chainSet\<close> the
  functions it had resolved, while the caller drops what the candidate appended to the
  chain. Here the mapper at 2 fails on the Float after the mapper at 1 was recorded, so
  that the mapper at 3 takes its Int for produced: the chain is resolved, through a
  mapper that needs nothing but the values, and does not hold that mapper.
\<close>

lemma Chain_after_failed_candidate:
  "ChainInputSet plain_walk stale_heap 0 [1, 2, 3] accepts_none = Some [] \<and>
   Func_Chain arg_order stale_heap 0 [1, 2, 3] [] = Inr \<lparr>funcs = [3, 0], values = []\<rparr> \<and>
   Func_Chain rev_order stale_heap 0 [1, 2, 3] [] = Inr \<lparr>funcs = [1, 3, 0], values = []\<rparr>"
  by (simp add: ChainInputSet_def plain_walk_def accepts_none_def inputSet.simps eval_defs
      stale_heap_def func_chain.simps)

text \<open>
  C4: when the target misses no argument against the values extended with its own bound
  values, \<open>Func.Chain\<close> returns without error the chain with the target as its only
  function and those values as its pool, whatever the library is.
\<close>

theorem Chain_short_circuit:
  assumes "args (H f) (vals @ Values (H f)) = []"
  shows "Func_Chain ord H f mappers vals = Inr \<lparr>funcs = [f], values = vals @ Values (H f)\<rparr>"
  using assms by (simp add: Func_Chain_def)

theorem Chain_short_circuit_witness:
  "args (ex_heap 0) ([anInt, aString] @ Values (ex_heap 0)) = [] \<and>
   Func_Chain rev_order ex_heap 0 [1, 2] [anInt, aString]
     = Inr \<lparr>funcs = [0], values = [anInt, aString]\<rparr>"
proof -
  have h: "args (ex_heap 0) ([anInt, aString] @ Values (ex_heap 0)) = []"
    by (simp add: eval_defs ex_heap_def)
  from Chain_short_circuit [where H = ex_heap and f = 0 and vals = "[anInt, aString]"
      and ord = rev_order and mappers = "[1, 2]"] h
  show ?thesis
    by (simp add: ex_heap_def mk_def)
qed

text \<open>
  C5, as amended: when an argument of the target itself is neither among the values nor
  produced by any mapper of the library, \<open>Func.Chain\<close> returns an error, and the message
  names the display name of an argument of the target that is not among the values and
  cannot be satisfied from the values through the mappers of the library (that argument,
  when it is the only such one).
\<close>

theorem Chain_unresolvable_type:
  assumes "valid_order ord"
    and "t \<in> set (Args (H f))" and "\<not> matches (vals @ Values (H f)) t"
    and "\<forall>m \<in> set mappers. Key (Out (H m)) \<noteq> Key t"
  shows "\<exists>t' \<in> set (Args (H f)). \<not> matches (vals @ Values (H f)) t' \<and>
     \<not> satisfiable H mappers (matches (vals @ Values (H f))) t' \<and>
     Func_Chain ord H f mappers vals = Inl (unable_to_map t')"
proof (cases "Func_Chain ord H f mappers vals")
  case (Inl err)
  from Func_Chain_error_unsatisfiable [OF assms(1) Inl] Inl show ?thesis by blast
next
  case (Inr c)
  from Func_Chain_sound [OF assms(1) Inr] assms(2)
  have "satisfiable H mappers (matches (vals @ Values (H f))) t" by blast
  then show ?thesis using assms(3,4) by (cases rule: satisfiable.cases) auto
qed

theorem Chain_unresolvable_type_witness:
  "valid_order rev_order \<and> tyFloat \<in> set (Args (alt_heap 1)) \<and>
   \<not> matches ([] @ Values (alt_heap 1)) tyFloat \<and>
   lookup (mapperByOut alt_heap [0, 2]) (Key tyFloat) = [] \<and>
   Func_Chain rev_order alt_heap 1 [0, 2] [] = Inl (unable_to_map tyFloat)"
proof -
  have l: "lookup (mapperByOut alt_heap [0, 2]) (Key tyFloat) = []"
    by (simp add: eval_defs alt_heap_def)
  have a: "tyFloat \<in> set (Args (alt_heap 1))" by (simp add: alt_heap_def mk_def)
  have b: "\<not> matches ([] @ Values (alt_heap 1)) tyFloat" by (simp add: matches_def alt_heap_def mk_def)
  have c: "\<forall>m \<in> set [0, 2]. Key (Out (alt_heap m)) \<noteq> Key tyFloat"
    by (simp add: alt_heap_def mk_def tyT_def tyString_def tyFloat_def)
  have e: "Func_Chain rev_order alt_heap 1 [0, 2] [] = Inl (unable_to_map tyFloat)"
    by (simp add: eval_defs alt_heap_def func_chain.simps)
  from Chain_unresolvable_type [OF valid_rev_order a b c] valid_rev_order a b l e show ?thesis by simp
qed

text \<open>
  The claim as it was stated fails: the Float that the mapper at 1 needs has no producer
  and no value, the search explores the mapper at 1 and fails there on the Float, and
  \<open>Func.Chain\<close> still returns a chain, through the mapper at 2; without the mapper at 2
  the error names the String of the target, not the Float.
\<close>

theorem Chain_unresolvable_type_counterexample:
  "tyFloat \<in> set (Args (alt_heap 1)) \<and> \<not> matches [] tyFloat \<and>
   lookup (mapperByOut alt_heap [1, 2]) (Key tyFloat) = [] \<and>
   fst (func_chain arg_order alt_heap [] (mapperByOut alt_heap [1, 2]) [(tyString, 1)] 1 [] {} {0})
     = Inl (unable_to_map tyFloat) \<and>
   Func_Chain arg_order alt_heap 0 [1, 2] [] = Inr \<lparr>funcs = [2, 0], values = []\<rparr> \<and>
   Func_Chain arg_order alt_heap 0 [1] [] = Inl (unable_to_map tyString) \<and>
   unable_to_map tyString \<noteq> unable_to_map tyFloat"
  by (simp add: eval_defs alt_heap_def func_chain.simps)

text \<open>
  C6: when an argument of mapper A is produced by mapper B only, an argument of B by A
  only, and the values cover neither type, \<open>Func.Chain\<close> on A, and on B, returns an
  error. The search is a total function (its termination is proved with its
  definition: the functions outside \<open>pendingSet\<close> get fewer with every recursive call), so
  it returns on every input.
\<close>

theorem Chain_cycle_fails:
  assumes "valid_order ord"
    and "tA \<in> set (Args (H A))" and "tB \<in> set (Args (H B))"
    and "{m \<in> set mappers. Key (Out (H m)) = Key tA} = {B}"
    and "{m \<in> set mappers. Key (Out (H m)) = Key tB} = {A}"
    and "f = A \<or> f = B"
    and "\<not> matches (vals @ Values (H f)) tA" and "\<not> matches (vals @ Values (H f)) tB"
  shows "\<exists>err. Func_Chain ord H f mappers vals = Inl err"
proof -
  let ?S = "satisfiable H mappers (matches (vals @ Values (H f)))"
  have no: "?S a \<Longrightarrow> Key a \<noteq> Key tA \<and> Key a \<noteq> Key tB" for a
  proof (induction rule: satisfiable.induct)
    case (supplied a)
    with assms(7,8) show ?case by (auto simp: matches_def)
  next
    case (mapped m a)
    show ?case
    proof (intro conjI notI)
      assume "Key a = Key tA"
      with mapped(1,2) have "m \<in> {m \<in> set mappers. Key (Out (H m)) = Key tA}" by simp
      then have "m \<in> {B}" unfolding assms(4) .
      then have "m = B" by simp
      with mapped.IH assms(3) show False by blast
    next
      assume "Key a = Key tB"
      with mapped(1,2) have "m \<in> {m \<in> set mappers. Key (Out (H m)) = Key tB}" by simp
      then have "m \<in> {A}" unfolding assms(5) .
      then have "m = A" by simp
      with mapped.IH assms(2) show False by blast
    qed
  qed
  show ?thesis
  proof (cases "Func_Chain ord H f mappers vals")
    case (Inl err)
    then show ?thesis by blast
  next
    case (Inr c)
    from assms(2,3,6) obtain t where "t \<in> set (Args (H f))" "Key t = Key tA \<or> Key t = Key tB"
      by blast
    with Func_Chain_sound [OF assms(1) Inr] have "?S t" "Key t = Key tA \<or> Key t = Key tB"
      by blast+
    with no [of t] show ?thesis by blast
  qed
qed

theorem Chain_cycle_fails_witness:
  "valid_order arg_order \<and>
   {m \<in> set [1, 2]. Key (Out (cyc_heap m)) = Key tyInt} = {2} \<and>
   {m \<in> set [1, 2]. Key (Out (cyc_heap m)) = Key tyString} = {1} \<and>
   Func_Chain arg_order cyc_heap 1 [1, 2] [] = Inl (unable_to_map tyInt) \<and>
   Func_Chain arg_order cyc_heap 2 [1, 2] [] = Inl (unable_to_map tyString)"
proof -
  have a: "tyInt \<in> set (Args (cyc_heap 1))" "tyString \<in> set (Args (cyc_heap 2))"
    by (simp_all add: cyc_heap_def mk_def)
  have b: "{m \<in> set [1, 2]. Key (Out (cyc_heap m)) = Key tyInt} = {2}"
    "{m \<in> set [1, 2]. Key (Out (cyc_heap m)) = Key tyString} = {1}"
    by (auto simp: cyc_heap_def mk_def tyInt_def tyString_def)
  have f: "(1 :: nat) = 1 \<or> (1 :: nat) = 2" by simp
  have c: "\<not> matches ([] @ Values (cyc_heap 1)) tyInt" "\<not> matches ([] @ Values (cyc_heap 1)) tyString"
    by (simp_all add: matches_def cyc_heap_def mk_def)
  have e: "Func_Chain arg_order cyc_heap 1 [1, 2] [] = Inl (unable_to_map tyInt)"
    "Func_Chain arg_order cyc_heap 2 [1, 2] [] = Inl (unable_to_map tyString)"
    by (simp_all add: eval_defs cyc_heap_def func_chain.simps)
  from Chain_cycle_fails [OF valid_arg_order a b f c] valid_arg_order b e show ?thesis by simp
qed

text \<open>
  C7: \<open>ChainTarget\<close> returns nil exactly when no entry of the library both passes the
  check on its output type and resolves through \<open>Func.Chain\<close> with the values; otherwise
  it returns the chain of the first such entry in library order.
\<close>

theorem ChainTarget_first_resolving:
  "(ChainTarget ords H check mappers vals = None \<longleftrightarrow>
      \<not> (\<exists>i<length mappers. check (Out (H (mappers ! i))) \<and>
           (\<exists>c. Func_Chain (ords i) H (mappers ! i) mappers vals = Inr c))) \<and>
   (\<forall>c. ChainTarget ords H check mappers vals = Some c \<longrightarrow>
      (\<exists>i<length mappers. check (Out (H (mappers ! i))) \<and>
         Func_Chain (ords i) H (mappers ! i) mappers vals = Inr c \<and>
         (\<forall>j<i. \<not> (check (Out (H (mappers ! j))) \<and>
            (\<exists>c'. Func_Chain (ords j) H (mappers ! j) mappers vals = Inr c')))))"
  using ChainTarget_loop_None [of ords H check mappers vals 0 mappers]
    ChainTarget_loop_Some [of ords H check mappers vals 0 mappers]
  by (auto simp: ChainTarget_def)

theorem ChainTarget_first_resolving_witness:
  "ChainTarget same_order ex_heap accepts_String [1, 2] [] = Some \<lparr>funcs = [1, 2], values = []\<rparr> \<and>
   (\<exists>i<length [1, 2 :: nat]. accepts_String (Out (ex_heap ([1, 2] ! i))) \<and>
      Func_Chain (same_order i) ex_heap ([1, 2] ! i) [1, 2] [] = Inr \<lparr>funcs = [1, 2], values = []\<rparr>) \<and>
   ChainTarget same_order cyc_heap accepts_String [1, 2] [] = None"
proof -
  have h: "ChainTarget same_order ex_heap accepts_String [1, 2] [] = Some \<lparr>funcs = [1, 2], values = []\<rparr>"
    by (simp add: ChainTarget_def same_order_def accepts_String_def eval_defs ex_heap_def
        func_chain.simps)
  have n: "ChainTarget same_order cyc_heap accepts_String [1, 2] [] = None"
    by (simp add: ChainTarget_def same_order_def accepts_String_def eval_defs cyc_heap_def
        func_chain.simps)
  from ChainTarget_first_resolving [of same_order ex_heap accepts_String "[1, 2]" "[]"] h
  have "\<exists>i<length [1, 2 :: nat]. accepts_String (Out (ex_heap ([1, 2] ! i))) \<and>
      Func_Chain (same_order i) ex_heap ([1, 2] ! i) [1, 2] [] = Inr \<lparr>funcs = [1, 2], values = []\<rparr>"
    by blast
  with h n show ?thesis by blast
qed

text \<open>
  C8: \<open>Chain.Call\<close> runs the functions of the chain in the order of \<open>funcs\<close>; at the first
  function whose execution returns an error it stops and returns that error and no
  result; when all succeed it returns the result of the last function. The log of the
  runs is a prefix of \<open>funcs\<close>, no run but the last one of the log failed, an error is the
  outcome of the last run, and on success the log is all of \<open>funcs\<close>.
\<close>

theorem Chain_Call_in_order:
  assumes "Chain_Call (traced ex) c (s, []) = (r, c', (s', log))"
  shows "prefix (map fst log) (funcs c) \<and>
     (\<forall>e \<in> set (butlast log). \<not> isl (snd e)) \<and>
     (case r of
        Inl err \<Rightarrow> log \<noteq> [] \<and> snd (last log) = Inl err
      | Inr res \<Rightarrow> map fst log = funcs c \<and> (\<forall>e \<in> set log. \<not> isl (snd e)) \<and>
          res = (if log = [] then None else projr (snd (last log))))"
  using Chain_Call_traced [OF assms] by blast

theorem Chain_Call_in_order_witness:
  "Chain_Call (traced only_first) \<lparr>funcs = [1, 2, 0], values = []\<rparr> ((), [])
     = (Inl ''boom'', \<lparr>funcs = [1, 2, 0], values = [anInt]\<rparr>,
        ((), [(1, Inr (Some anInt)), (2, Inl ''boom'')])) \<and>
   prefix (map fst [(1 :: nat, Inr (Some anInt)), (2, Inl ''boom'')]) [1, 2, 0]"
proof -
  have h: "Chain_Call (traced only_first) \<lparr>funcs = [1, 2, 0], values = []\<rparr> ((), [])
     = (Inl ''boom'', \<lparr>funcs = [1, 2, 0], values = [anInt]\<rparr>,
        ((), [(1, Inr (Some anInt)), (2, Inl ''boom'')]))"
    by (simp add: Chain_Call_def traced_apply only_first_def)
  from Chain_Call_in_order [OF h] h show ?thesis by simp
qed

text \<open>
  C9: the last function of a chain returned by \<open>Func.Chain\<close> is the target, so \<open>Chain.Out\<close>
  returns the output type of the target.
\<close>

theorem Chain_ends_with_target:
  assumes "Func_Chain ord H f mappers vals = Inr c"
  shows "funcs c \<noteq> [] \<and> last (funcs c) = f \<and> Chain_Out H c = Some (Out (H f))"
  using Func_Chain_last [OF assms] by (simp add: Chain_Out_def)

theorem Chain_ends_with_target_witness:
  "Func_Chain arg_order ex_heap 0 [1, 2] [] = Inr \<lparr>funcs = [1, 2, 0], values = []\<rparr> \<and>
   last [1, 2, 0] = (0::nat) \<and>
   Chain_Out ex_heap \<lparr>funcs = [1, 2, 0], values = []\<rparr> = Some tyT"
proof -
  have h: "Func_Chain arg_order ex_heap 0 [1, 2] [] = Inr \<lparr>funcs = [1, 2, 0], values = []\<rparr>"
    by (simp add: eval_defs ex_heap_def func_chain.simps)
  from Chain_ends_with_target [OF h] h show ?thesis
    by (simp add: ex_heap_def mk_def)
qed

text \<open>
  C10: when \<open>ChainTarget\<close> returns a chain, \<open>Chain.Out\<close> of that chain is a type on which
  the check holds.
\<close>

theorem ChainTarget_output_accepted:
  assumes "ChainTarget ords H check mappers vals = Some c"
  shows "\<exists>ty. Chain_Out H c = Some ty \<and> check ty"
proof -
  from assms obtain i where i: "i < length mappers" "check (Out (H (mappers ! i)))"
    "Func_Chain (ords i) H (mappers ! i) mappers vals = Inr c"
    using ChainTarget_loop_Some [of ords H check mappers vals 0 mappers c]
    by (auto simp: ChainTarget_def)
  from Func_Chain_last [OF i(3)] i(2) show ?thesis by (simp add: Chain_Out_def)
qed

theorem ChainTarget_output_accepted_witness:
  "ChainTarget same_order ex_heap accepts_String [1, 2] [] = Some \<lparr>funcs = [1, 2], values = []\<rparr> \<and>
   Chain_Out ex_heap \<lparr>funcs = [1, 2], values = []\<rparr> = Some tyString \<and> accepts_String tyString"
proof -
  have h: "ChainTarget same_order ex_heap accepts_String [1, 2] [] = Some \<lparr>funcs = [1, 2], values = []\<rparr>"
    by (simp add: ChainTarget_def same_order_def accepts_String_def eval_defs ex_heap_def
        func_chain.simps)
  have o: "Chain_Out ex_heap \<lparr>funcs = [1, 2], values = []\<rparr> = Some tyString"
    by (simp add: Chain_Out_def ex_heap_def mk_def)
  from ChainTarget_output_accepted [OF h] h o show ?thesis by simp
qed

end
